theory Spec2Isabelle
  imports Complex_Main "HOL-Library.AList"
begin

section \<open>Common Python notions\<close>

text \<open>
  The exceptions the two scripts can end with. \<open>SystemExit n\<close> is what \<open>sys.exit(n)\<close>
  raises; the others are raised by the interpreter itself.
\<close>

datatype py_error = SystemExit int | TypeError | ValueError | KeyError string

text \<open>What a script does to the outside world, in the order it does it.\<close>

datatype event = Print string | Read_csv string | Savefig string | Show

abbreviation quote :: char where
  "quote \<equiv> CHR 0x27"

section \<open>plot-csv.py: the data model\<close>

text \<open>
  A cell of the DataFrame as \<open>pd.read_csv\<close> delivers it: missing (NaN), a number
  (float64, idealised as a real), or text that the reader left as a string.
\<close>

datatype cell = NA | Num real | Str string

datatype column = Ts | Sender | Normalized_tput | Rtt | Retr_current | Retr_total | Cwnd | Ssthresh

text \<open>\<open>df[col]\<close> is the column named \<open>col\<close>, top row first.\<close>

type_synonym dataframe = "column \<Rightarrow> cell list"

record args =
  csv_path :: string
  title :: "string list"

section \<open>plot-csv.py: parse_arguments\<close>

text \<open>\<open>sep.join(xs)\<close>\<close>

fun join :: "string \<Rightarrow> string list \<Rightarrow> string" where
  "join sep [] = []"
| "join sep [x] = x"
| "join sep (x # y # ys) = x @ sep @ join sep (y # ys)"

text \<open>
  \<open>parse_arguments\<close>, from the namespace that \<open>parser.parse_args()\<close> returned on.
  \<open>isfile\<close> is \<open>os.path.isfile\<close> on the file system the script runs on.
\<close>

definition parse_arguments ::
  "(string \<Rightarrow> bool) \<Rightarrow> args \<Rightarrow> event list \<times> (py_error + string \<times> string)" where
  "parse_arguments isfile a =
     (let plot_title = join '' '' (title a) in
      if \<not> isfile (csv_path a)
      then ([Print (''Error: File '' @ [quote] @ csv_path a @ [quote] @ '' does not exist.'')],
            Inl (SystemExit 1))
      else ([], Inr (csv_path a, plot_title)))"

section \<open>plot-csv.py: load_data\<close>

text \<open>
  \<open>read_csv p\<close> is the call \<open>pd.read_csv(p, names=column_names, header=None, na_values=...)\<close>:
  \<open>Inr df\<close> when it returns, \<open>Inl msg\<close> when it raises an \<open>Exception\<close> whose text is \<open>msg\<close>.
\<close>

definition load_data ::
  "(string \<Rightarrow> string + dataframe) \<Rightarrow> string \<Rightarrow> event list \<times> (py_error + dataframe)" where
  "load_data read_csv p =
     (case read_csv p of
        Inl e \<Rightarrow> ([Read_csv p, Print (''Error reading CSV file: '' @ e)], Inl (SystemExit 1))
      | Inr df \<Rightarrow> ([Read_csv p], Inr df))"

section \<open>plot-csv.py: process_data\<close>

definition numeric_columns :: "column list" where
  "numeric_columns = [Ts, Normalized_tput, Rtt, Retr_current, Retr_total, Cwnd, Ssthresh]"

text \<open>
  \<open>pd.to_numeric(s, errors='coerce')\<close> on one cell. \<open>parse\<close> is pandas' reading of a string
  as a number (\<open>None\<close> when the string is not one).
\<close>

fun coerce :: "(string \<Rightarrow> real option) \<Rightarrow> cell \<Rightarrow> cell" where
  "coerce parse NA = NA"
| "coerce parse (Num x) = Num x"
| "coerce parse (Str s) = (case parse s of None \<Rightarrow> NA | Some x \<Rightarrow> Num x)"

definition to_numeric :: "(string \<Rightarrow> real option) \<Rightarrow> cell list \<Rightarrow> cell list" where
  "to_numeric parse col = map (coerce parse) col"

text \<open>
  Forward fill of one column: \<open>prev\<close> is the last valid value seen so far (\<open>NA\<close> while
  there is none).
\<close>

fun ffill_from :: "cell \<Rightarrow> cell list \<Rightarrow> cell list" where
  "ffill_from prev [] = []"
| "ffill_from prev (c # cs) =
     (if c = NA then prev # ffill_from prev cs else c # ffill_from c cs)"

text \<open>\<open>df.fillna(method='ffill', inplace=True)\<close>: every column of the frame is filled.\<close>

definition fillna_ffill :: "dataframe \<Rightarrow> dataframe" where
  "fillna_ffill df = (\<lambda>col. ffill_from NA (df col))"

text \<open>\<open>series / d\<close>: NaN stays NaN, a string raises \<open>TypeError\<close>.\<close>

fun truediv :: "cell list \<Rightarrow> real \<Rightarrow> py_error + cell list" where
  "truediv [] d = Inr []"
| "truediv (NA # cs) d = (case truediv cs d of Inl e \<Rightarrow> Inl e | Inr r \<Rightarrow> Inr (NA # r))"
| "truediv (Num x # cs) d = (case truediv cs d of Inl e \<Rightarrow> Inl e | Inr r \<Rightarrow> Inr (Num (x / d) # r))"
| "truediv (Str s # cs) d = Inl TypeError"

definition process_data :: "(string \<Rightarrow> real option) \<Rightarrow> dataframe \<Rightarrow> py_error + dataframe" where
  "process_data parse df =
     (let df1 = foldl (\<lambda>d col. d(col := to_numeric parse (d col))) df numeric_columns;
          df2 = df1(Retr_total := to_numeric parse (df1 Retr_total));
          df3 = fillna_ffill df2
      in case truediv (df3 Normalized_tput) 1000 of
           Inl e \<Rightarrow> Inl e
         | Inr tput \<Rightarrow> Inr (df3(Normalized_tput := tput)))"

section \<open>plot-csv.py: plot_metrics and main\<close>

text \<open>\<open>s.replace(old, new)\<close> for one-character \<open>old\<close> and \<open>new\<close>.\<close>

fun str_replace :: "string \<Rightarrow> char \<Rightarrow> char \<Rightarrow> string" where
  "str_replace [] old new = []"
| "str_replace (c # cs) old new = (if c = old then new else c) # str_replace cs old new"

definition output_image :: "string \<Rightarrow> string" where
  "output_image plot_title =
     (let safe_title = (if plot_title \<noteq> [] then str_replace plot_title CHR '' '' CHR ''_''
                        else ''sender-ss'')
      in safe_title @ ''_plots.png'')"

text \<open>
  Of \<open>plot_metrics\<close> only what leaves the process is kept: the file written, the line
  printed and the window shown. The drawing calls do not read or change the title.
\<close>

definition plot_metrics :: "dataframe \<Rightarrow> string \<Rightarrow> event list" where
  "plot_metrics df plot_title =
     [Savefig (output_image plot_title),
      Print (''Plots saved as '' @ [quote] @ output_image plot_title @ [quote]),
      Show]"

text \<open>\<open>main\<close>: the events of the run and the exception it ended with, if any.\<close>

definition main ::
  "(string \<Rightarrow> bool) \<Rightarrow> (string \<Rightarrow> string + dataframe) \<Rightarrow> (string \<Rightarrow> real option) \<Rightarrow> args
     \<Rightarrow> event list \<times> py_error option" where
  "main isfile read_csv parse a =
     (case parse_arguments isfile a of
        (out1, Inl e) \<Rightarrow> (out1, Some e)
      | (out1, Inr (p, plot_title)) \<Rightarrow>
          (case load_data read_csv p of
             (out2, Inl e) \<Rightarrow> (out1 @ out2, Some e)
           | (out2, Inr df) \<Rightarrow>
               (case process_data parse df of
                  Inl e \<Rightarrow> (out1 @ out2, Some e)
                | Inr df' \<Rightarrow> (out1 @ out2 @ plot_metrics df' plot_title, None))))"

section \<open>plot_iperf3.py: the report\<close>

text \<open>
  The part of the iperf3 report the script reads. A key that a JSON object may lack is
  an option: \<open>None\<close> is the absent key, on which \<open>obj[key]\<close> raises \<open>KeyError\<close>.
  \<open>rtt_key\<close> is the key \<open>rtt\<close> of a stream object and \<open>sum_key\<close> the key \<open>sum\<close> of an interval.
\<close>

record stream_obj =
  socket :: "int option"
  rtt_key :: "real option"
  bits_per_second :: "real option"

record sum_obj =
  start :: "real option"

record interval =
  streams :: "stream_obj list option"
  sum_key :: "sum_obj option"

record report =
  intervals :: "interval list option"

text \<open>The three lists the script keeps per stream: \<open>{'time': [], 'rtt': [], 'bps': []}\<close>.\<close>

record 'a series =
  time :: "'a list"
  rtt :: "'a list"
  bps :: "'a list"

text \<open>
  \<open>stream_data\<close>, a dict from socket id to series: an association list in insertion
  order, each key once.
\<close>

type_synonym stream_data = "(int \<times> real series) list"

section \<open>plot_iperf3.py: the collection loop\<close>

text \<open>The body of the inner loop, for one stream object of one interval.\<close>

definition collect_stream ::
  "interval \<Rightarrow> stream_data \<Rightarrow> stream_obj \<Rightarrow> py_error + stream_data" where
  "collect_stream interval stream_data stream =
     (case socket stream of
        None \<Rightarrow> Inl (KeyError ''socket'')
      | Some stream_id \<Rightarrow>
          (let sd1 = (if map_of stream_data stream_id = None
                      then AList.update stream_id \<lparr>time = [], rtt = [], bps = []\<rparr> stream_data
                      else stream_data)
           in (case sum_key interval of
                 None \<Rightarrow> Inl (KeyError ''sum'')
               | Some s \<Rightarrow>
                   (case start s of
                      None \<Rightarrow> Inl (KeyError ''start'')
                    | Some t \<Rightarrow>
                        (let sd2 = AList.map_entry stream_id (\<lambda>d. d\<lparr>time := time d @ [t]\<rparr>) sd1;
                             r = (case rtt_key stream of None \<Rightarrow> 0 | Some x \<Rightarrow> x);
                             sd3 = AList.map_entry stream_id
                                     (\<lambda>d. d\<lparr>rtt := rtt d @ [r / 10 ^ 3]\<rparr>) sd2
                         in (case bits_per_second stream of
                               None \<Rightarrow> Inl (KeyError ''bits_per_second'')
                             | Some b \<Rightarrow>
                                 Inr (AList.map_entry stream_id
                                        (\<lambda>d. d\<lparr>bps := bps d @ [b / 10 ^ 6]\<rparr>) sd3)))))))"

text \<open>\<open>for stream in interval['streams']\<close>, on the list already fetched.\<close>

fun collect_streams ::
  "interval \<Rightarrow> stream_obj list \<Rightarrow> stream_data \<Rightarrow> py_error + stream_data" where
  "collect_streams interval [] stream_data = Inr stream_data"
| "collect_streams interval (stream # rest) stream_data =
     (case collect_stream interval stream_data stream of
        Inl e \<Rightarrow> Inl e
      | Inr sd \<Rightarrow> collect_streams interval rest sd)"

text \<open>\<open>for interval in streams\<close>\<close>

fun collect_intervals :: "interval list \<Rightarrow> stream_data \<Rightarrow> py_error + stream_data" where
  "collect_intervals [] stream_data = Inr stream_data"
| "collect_intervals (interval # rest) stream_data =
     (case streams interval of
        None \<Rightarrow> Inl (KeyError ''streams'')
      | Some ss \<Rightarrow>
          (case collect_streams interval ss stream_data of
             Inl e \<Rightarrow> Inl e
           | Inr sd \<Rightarrow> collect_intervals rest sd))"

text \<open>Lines 11 to 22: \<open>iperf_data.get('intervals', [])\<close>, then the loop from the empty dict.\<close>

definition collect :: "report \<Rightarrow> py_error + stream_data" where
  "collect iperf_data =
     collect_intervals (case intervals iperf_data of None \<Rightarrow> [] | Some l \<Rightarrow> l) []"

section \<open>plot_iperf3.py: compute_averages\<close>

text \<open>\<open>np.mean\<close> of a list of numbers; of the empty list it is NaN, here \<open>None\<close>.\<close>

definition np_mean :: "real list \<Rightarrow> real option" where
  "np_mean xs = (if xs = [] then None else Some (sum_list xs / real (length xs)))"

text \<open>
  The loop \<open>for i in range(0, len(data['time']), chunk_size)\<close> from index \<open>i\<close> on.
  A step of 0 never gets here: \<open>range\<close> refuses it before the first iteration.
\<close>

function avg_loop ::
  "real series \<Rightarrow> nat \<Rightarrow> nat \<Rightarrow> real option series \<Rightarrow> real option series" where
  "avg_loop data chunk_size i avg_data =
     (if chunk_size = 0 \<or> length (time data) \<le> i then avg_data
      else
        let chunk_time = take chunk_size (drop i (time data));
            chunk_rtt = take chunk_size (drop i (rtt data));
            chunk_bps = take chunk_size (drop i (bps data))
        in avg_loop data chunk_size (i + chunk_size)
             (if chunk_time \<noteq> []
              then avg_data\<lparr>time := time avg_data @ [np_mean chunk_time],
                             rtt := rtt avg_data @ [map_option (\<lambda>m. m - 45) (np_mean chunk_rtt)],
                             bps := bps avg_data @ [np_mean chunk_bps]\<rparr>
              else avg_data))"
  by pat_completeness auto
termination
  by (relation "measure (\<lambda>(data, chunk_size, i, avg_data). length (time data) - i)") auto

declare avg_loop.simps [simp del]

definition compute_averages :: "real series \<Rightarrow> int \<Rightarrow> py_error + real option series" where
  "compute_averages data chunk_size =
     (let avg_data = \<lparr>time = [], rtt = [], bps = []\<rparr>
      in if chunk_size = 0 then Inl ValueError
         else if chunk_size < 0 then Inr avg_data
         else Inr (avg_loop data (nat chunk_size) 0 avg_data))"

section \<open>Notions used to state the properties\<close>

text \<open>What \<open>x / d\<close> leaves in a cell of a numeric column.\<close>

fun scale :: "real \<Rightarrow> cell \<Rightarrow> cell" where
  "scale d NA = NA" | "scale d (Num x) = Num (x / d)" | "scale d (Str s) = Str s"

text \<open>
  The frame after the conversions and the forward fill, column by column: the numeric
  columns are converted and then filled, the sender column is only filled.
\<close>

definition filled :: "(string \<Rightarrow> real option) \<Rightarrow> dataframe \<Rightarrow> dataframe" where
  "filled parse df col =
     (if col \<in> set numeric_columns then ffill_from NA (to_numeric parse (df col))
      else ffill_from NA (df col))"

text \<open>A reading of strings that knows one number, and two small frames, to run the code on.\<close>

definition example_parse :: "string \<Rightarrow> real option" where
  "example_parse s = (if s = ''7'' then Some 7 else None)"

definition example_df :: dataframe where
  "example_df col =
     (case col of
        Ts \<Rightarrow> [Num 0, Num 1, Num 2, Num 3]
      | Sender \<Rightarrow> [NA, Str ''h1'', NA, NA]
      | Normalized_tput \<Rightarrow> [NA, Num 5000, Str ''x'', NA]
      | Rtt \<Rightarrow> [Str ''7'', NA, Num 9, NA]
      | _ \<Rightarrow> [NA, NA, NA, NA])"

definition quiet_df :: dataframe where
  "quiet_df col = (case col of Sender \<Rightarrow> [NA, NA] | _ \<Rightarrow> [Num 0, Num 0])"

text \<open>
  The number of iterations \<open>range(i, n, chunk_size)\<close> makes: the chunks that start at
  \<open>i\<close>, \<open>i + chunk_size\<close>, ... below \<open>n\<close>.
\<close>

definition chunks_from :: "nat \<Rightarrow> nat \<Rightarrow> nat \<Rightarrow> nat" where
  "chunks_from n chunk_size i = (n - i + (chunk_size - 1)) div chunk_size"

text \<open>A stream of 25 samples, one per second, with a constant RTT and rate.\<close>

definition example_series :: "real series" where
  "example_series =
     \<lparr>time = [0, 1, 2, 3, 4, 5, 6, 7, 8, 9, 10, 11, 12, 13, 14, 15, 16, 17, 18, 19, 20, 21, 22, 23, 24],
      rtt = replicate 25 95,
      bps = replicate 25 2\<rparr>"

text \<open>
  The samples of a report in the order the two loops visit them, each with its interval,
  and those among them that carry the socket id \<open>k\<close>.
\<close>

definition samples_of :: "interval list \<Rightarrow> (interval \<times> stream_obj) list" where
  "samples_of ivs =
     concat (map (\<lambda>iv. map (Pair iv) (case streams iv of None \<Rightarrow> [] | Some ss \<Rightarrow> ss)) ivs)"

definition samples_for :: "int \<Rightarrow> interval list \<Rightarrow> (interval \<times> stream_obj) list" where
  "samples_for k ivs = filter (\<lambda>p. socket (snd p) = Some k) (samples_of ivs)"

definition complete_sample :: "interval \<times> stream_obj \<Rightarrow> bool" where
  "complete_sample p =
     (case p of (iv, s) \<Rightarrow>
        socket s \<noteq> None \<and> bits_per_second s \<noteq> None
        \<and> (case sum_key iv of None \<Rightarrow> False | Some so \<Rightarrow> start so \<noteq> None))"

definition well_formed :: "interval list \<Rightarrow> bool" where
  "well_formed ivs =
     (list_all (\<lambda>iv. streams iv \<noteq> None) ivs \<and> list_all complete_sample (samples_of ivs))"

definition sample_time :: "interval \<times> stream_obj \<Rightarrow> real" where
  "sample_time p = the (start (the (sum_key (fst p))))"

definition sample_rtt :: "interval \<times> stream_obj \<Rightarrow> real" where
  "sample_rtt p = (case rtt_key (snd p) of None \<Rightarrow> 0 | Some x \<Rightarrow> x) / 1000"

definition sample_bps :: "interval \<times> stream_obj \<Rightarrow> real" where
  "sample_bps p = the (bits_per_second (snd p)) / 1000000"

definition add_sample ::
  "int \<Rightarrow> real series option \<Rightarrow> interval \<times> stream_obj \<Rightarrow> real series option" where
  "add_sample k d p =
     (if socket (snd p) = Some k
      then (let x = (case d of None \<Rightarrow> \<lparr>time = [], rtt = [], bps = []\<rparr> | Some y \<Rightarrow> y)
            in Some \<lparr>time = time x @ [sample_time p], rtt = rtt x @ [sample_rtt p],
                     bps = bps x @ [sample_bps p]\<rparr>)
      else d)"

text \<open>
  A report of two intervals and two sockets; socket 7 comes without an \<open>rtt\<close> in the
  first interval, and the second interval lists the sockets in the other order.
\<close>

definition example_report :: report where
  "example_report =
     \<lparr>intervals = Some
        [\<lparr>streams = Some [\<lparr>socket = Some 5, rtt_key = Some 52000, bits_per_second = Some 3000000\<rparr>,
                          \<lparr>socket = Some 7, rtt_key = None, bits_per_second = Some 1000000\<rparr>],
          sum_key = Some \<lparr>start = Some 0\<rparr>\<rparr>,
         \<lparr>streams = Some [\<lparr>socket = Some 7, rtt_key = Some 48000, bits_per_second = Some 2000000\<rparr>,
                          \<lparr>socket = Some 5, rtt_key = Some 50000, bits_per_second = Some 4000000\<rparr>],
          sum_key = Some \<lparr>start = Some 1\<rparr>\<rparr>]\<rparr>"

section \<open>Properties of the file name\<close>

lemma str_replace_map:
  "str_replace s old new = map (\<lambda>c. if c = old then new else c) s"
  by (induction s) simp_all

text \<open>
  Claim C6. The name of the image is a function of the title alone: a non-empty title
  keeps its length and every character except that each space has become an underscore,
  and \<open>_plots.png\<close> follows it; the title \<open>Test Run 1\<close> gives \<open>Test_Run_1_plots.png\<close>; the
  empty title gives \<open>sender-ss_plots.png\<close>. This is the file \<open>plot_metrics\<close> saves.
\<close>

theorem output_image_of_title:
  "(plot_title \<noteq> [] \<longrightarrow>
      (\<exists>safe. output_image plot_title = safe @ ''_plots.png''
          \<and> length safe = length plot_title
          \<and> CHR '' '' \<notin> set safe
          \<and> (\<forall>i < length plot_title.
                safe ! i = (if plot_title ! i = CHR '' '' then CHR ''_'' else plot_title ! i))))
   \<and> output_image ''Test Run 1'' = ''Test_Run_1_plots.png''
   \<and> output_image [] = ''sender-ss_plots.png''
   \<and> hd (plot_metrics df plot_title) = Savefig (output_image plot_title)"
proof -
  let ?safe = "str_replace plot_title CHR '' '' CHR ''_''"
  have a: "length ?safe = length plot_title"
    by (simp add: str_replace_map)
  have b: "CHR '' '' \<notin> set ?safe"
    by (auto simp: str_replace_map)
  have c: "\<forall>i < length plot_title.
      ?safe ! i = (if plot_title ! i = CHR '' '' then CHR ''_'' else plot_title ! i)"
    by (simp add: str_replace_map)
  have d: "plot_title \<noteq> [] \<longrightarrow> output_image plot_title = ?safe @ ''_plots.png''"
    by (simp add: output_image_def)
  have e: "output_image ''Test Run 1'' = ''Test_Run_1_plots.png''"
    by (simp add: output_image_def)
  have f: "output_image [] = ''sender-ss_plots.png''"
    by (simp add: output_image_def)
  have g: "hd (plot_metrics df plot_title) = Savefig (output_image plot_title)"
    by (simp add: plot_metrics_def)
  from a b c d e f g show ?thesis by blast
qed

theorem output_image_of_title_witness:
  "output_image ''a b'' = ''a_b_plots.png''"
proof -
  have ne: "''a b'' \<noteq> []" by simp
  from output_image_of_title [of "''a b''"] ne
  obtain safe where s: "output_image ''a b'' = safe @ ''_plots.png''"
    and l: "length safe = length ''a b''"
    and n: "\<forall>i < length ''a b''.
        safe ! i = (if ''a b'' ! i = CHR '' '' then CHR ''_'' else ''a b'' ! i)"
    by blast
  from l have l3: "length safe = 3" by simp
  from n have "safe ! 0 = CHR ''a''" by simp
  moreover from n have "safe ! 1 = CHR ''_''" by simp
  moreover from n have "safe ! 2 = CHR ''b''" by (simp add: numeral_2_eq_2)
  ultimately have "safe = ''a_b''"
    using l3 by (intro nth_equalityI) (auto simp: less_Suc_eq numeral_3_eq_3 numeral_2_eq_2)
  with s show ?thesis by simp
qed

section \<open>Properties of process_data\<close>

lemma coerce_not_Str: "coerce parse c \<noteq> Str s"
  by (cases c) (auto split: option.splits)

lemma coerce_idem: "coerce parse (coerce parse c) = coerce parse c"
  by (cases c) (auto split: option.splits)

lemma to_numeric_idem: "to_numeric parse (to_numeric parse col) = to_numeric parse col"
  by (simp add: to_numeric_def coerce_idem)

lemma length_ffill_from: "length (ffill_from p cs) = length cs"
  by (induction cs arbitrary: p) simp_all

lemma ffill_from_valid:
  "i < length cs \<Longrightarrow> cs ! i \<noteq> NA \<Longrightarrow> ffill_from p cs ! i = cs ! i"
proof (induction cs arbitrary: p i)
  case Nil
  then show ?case by simp
next
  case (Cons c cs)
  then show ?case by (cases i) auto
qed

lemma ffill_from_leading:
  "i < length cs \<Longrightarrow> \<forall>k\<le>i. cs ! k = NA \<Longrightarrow> ffill_from p cs ! i = p"
proof (induction cs arbitrary: i)
  case Nil
  then show ?case by simp
next
  case (Cons c cs)
  from Cons.prems(2) have c: "c = NA" by force
  show ?case
  proof (cases i)
    case 0
    with c show ?thesis by simp
  next
    case (Suc n)
    from Cons.prems(2) Suc have "\<forall>k\<le>n. cs ! k = NA" by force
    with Cons.IH [of n] Cons.prems(1) Suc c show ?thesis by simp
  qed
qed

lemma ffill_from_gap:
  "i < length cs \<Longrightarrow> j < i \<Longrightarrow> cs ! j \<noteq> NA \<Longrightarrow> \<forall>k. j < k \<and> k \<le> i \<longrightarrow> cs ! k = NA
     \<Longrightarrow> ffill_from p cs ! i = cs ! j"
proof (induction cs arbitrary: i j p)
  case Nil
  then show ?case by simp
next
  case (Cons c cs)
  from Cons.prems(2) obtain n where i: "i = Suc n" by (cases i) auto
  show ?case
  proof (cases j)
    case 0
    with Cons.prems(3) have c: "c \<noteq> NA" by simp
    from Cons.prems(4) 0 i have "\<forall>k\<le>n. cs ! k = NA" by force
    with ffill_from_leading [of n cs c] Cons.prems(1) i have "ffill_from c cs ! n = c" by simp
    with c i 0 show ?thesis by simp
  next
    case (Suc m)
    from Cons.prems i Suc have "ffill_from q cs ! n = cs ! m" for q
      by (intro Cons.IH) force+
    with i Suc show ?thesis by simp
  qed
qed

lemma ffill_from_no_Str:
  "\<forall>s. p \<noteq> Str s \<Longrightarrow> \<forall>c\<in>set cs. \<forall>s. c \<noteq> Str s \<Longrightarrow> \<forall>c\<in>set (ffill_from p cs). \<forall>s. c \<noteq> Str s"
  by (induction cs arbitrary: p) auto

lemma truediv_no_Str:
  "\<forall>c\<in>set cs. \<forall>s. c \<noteq> Str s \<Longrightarrow> truediv cs d = Inr (map (scale d) cs)"
proof (induction cs)
  case Nil
  then show ?case by simp
next
  case (Cons c cs)
  then show ?case by (cases c) auto
qed

lemma foldl_to_numeric:
  "foldl (\<lambda>d col. d(col := to_numeric parse (d col))) df cols c
     = (if c \<in> set cols then to_numeric parse (df c) else df c)"
proof (induction cols arbitrary: df)
  case Nil
  then show ?case by simp
next
  case (Cons a cols)
  then show ?case by (auto simp: to_numeric_idem)
qed

lemma process_data_eq:
  "process_data parse df =
     Inr ((filled parse df)(Normalized_tput := map (scale 1000) (filled parse df Normalized_tput)))"
proof -
  let ?df1 = "foldl (\<lambda>d col. d(col := to_numeric parse (d col))) df numeric_columns"
  let ?df2 = "?df1(Retr_total := to_numeric parse (?df1 Retr_total))"
  have df2: "?df2 col = (if col \<in> set numeric_columns then to_numeric parse (df col) else df col)"
    for col
    by (simp add: foldl_to_numeric to_numeric_idem numeric_columns_def)
  have df3: "fillna_ffill ?df2 = filled parse df"
    unfolding fillna_ffill_def filled_def by (rule ext) (simp only: df2, simp)
  have "\<forall>c\<in>set (filled parse df Normalized_tput). \<forall>s. c \<noteq> Str s"
    unfolding filled_def
    by (simp add: numeric_columns_def) (rule ffill_from_no_Str, auto simp: to_numeric_def coerce_not_Str)
  then have "truediv (filled parse df Normalized_tput) 1000
      = Inr (map (scale 1000) (filled parse df Normalized_tput))"
    by (rule truediv_no_Str)
  then show ?thesis
    unfolding process_data_def Let_def df3 by simp
qed

lemma filled_numeric_nth:
  assumes "col \<in> set numeric_columns" and "i < length (df col)"
  shows "length (filled parse df col) = length (df col)"
    and "coerce parse (df col ! i) \<noteq> NA \<Longrightarrow> filled parse df col ! i = coerce parse (df col ! i)"
    and "j < i \<Longrightarrow> coerce parse (df col ! j) \<noteq> NA
           \<Longrightarrow> \<forall>k. j < k \<and> k \<le> i \<longrightarrow> coerce parse (df col ! k) = NA
           \<Longrightarrow> filled parse df col ! i = coerce parse (df col ! j)"
    and "\<forall>k\<le>i. coerce parse (df col ! k) = NA \<Longrightarrow> filled parse df col ! i = NA"
proof -
  let ?cs = "to_numeric parse (df col)"
  have f: "filled parse df col = ffill_from NA ?cs"
    using assms(1) by (simp add: filled_def)
  have len: "length ?cs = length (df col)"
    by (simp add: to_numeric_def)
  have nth: "?cs ! k = coerce parse (df col ! k)" if "k \<le> i" for k
    using that assms(2) by (simp add: to_numeric_def)
  show "length (filled parse df col) = length (df col)"
    by (simp add: f length_ffill_from len)
  show "filled parse df col ! i = coerce parse (df col ! i)" if "coerce parse (df col ! i) \<noteq> NA"
    using that assms(2) ffill_from_valid [of i ?cs NA] by (simp add: f len nth)
  show "filled parse df col ! i = coerce parse (df col ! j)"
    if "j < i" "coerce parse (df col ! j) \<noteq> NA"
      "\<forall>k. j < k \<and> k \<le> i \<longrightarrow> coerce parse (df col ! k) = NA"
  proof -
    have "ffill_from NA ?cs ! i = ?cs ! j"
      using that assms(2) by (intro ffill_from_gap) (simp_all add: len nth)
    with that(1) show ?thesis by (simp add: f nth)
  qed
  show "filled parse df col ! i = NA" if "\<forall>k\<le>i. coerce parse (df col ! k) = NA"
    using that assms(2) ffill_from_leading [of i ?cs NA] by (simp add: f len nth)
qed

text \<open>
  Claim C1. Take a numeric column and a row \<open>i\<close> of it; a cell counts as missing when the
  conversion to a number leaves NaN. Processing returns a frame in which the column has
  kept its length. If row \<open>j\<close> is the nearest row above \<open>i\<close> with a valid value \<open>v\<close> and
  every row after \<open>j\<close> up to \<open>i\<close> is missing, then row \<open>i\<close> of the processed column holds what
  row \<open>j\<close> holds, which is \<open>v\<close> (and \<open>v / 1000\<close> in the throughput column, whose unit is
  converted after the fill). If every row up to \<open>i\<close> is missing, row \<open>i\<close> stays missing.
\<close>

theorem forward_fill_numeric_columns:
  assumes "col \<in> set numeric_columns" and "i < length (df col)"
  shows "\<exists>df'. process_data parse df = Inr df'
           \<and> length (df' col) = length (df col)
           \<and> (\<forall>j v. j < i \<and> coerce parse (df col ! j) = Num v
                    \<and> (\<forall>k. j < k \<and> k \<le> i \<longrightarrow> coerce parse (df col ! k) = NA)
                 \<longrightarrow> df' col ! i = df' col ! j
                     \<and> df' col ! j = Num (if col = Normalized_tput then v / 1000 else v))
           \<and> ((\<forall>k\<le>i. coerce parse (df col ! k) = NA) \<longrightarrow> df' col ! i = NA)"
proof -
  let ?f = "filled parse df"
  let ?df' = "?f(Normalized_tput := map (scale 1000) (?f Normalized_tput))"
  have len: "length (?f col) = length (df col)"
    using filled_numeric_nth(1) [of col i df parse] assms by simp
  have out: "?df' col ! n = (if col = Normalized_tput then scale 1000 (?f col ! n) else ?f col ! n)"
    if "n \<le> i" for n
    using that assms(2) len by auto
  have gap: "?df' col ! i = ?df' col ! j
      \<and> ?df' col ! j = Num (if col = Normalized_tput then v / 1000 else v)"
    if "j < i" "coerce parse (df col ! j) = Num v"
      "\<forall>k. j < k \<and> k \<le> i \<longrightarrow> coerce parse (df col ! k) = NA" for j v
  proof -
    have fi: "?f col ! i = Num v"
      using filled_numeric_nth(3) [of col i df j parse] assms that by simp
    have fj: "?f col ! j = Num v"
      using filled_numeric_nth(2) [of col j df parse] assms that(1,2) by simp
    have oi: "?df' col ! i = (if col = Normalized_tput then Num (v / 1000) else Num v)"
      using out [of i] by (simp only: fi) simp
    have oj: "?df' col ! j = (if col = Normalized_tput then Num (v / 1000) else Num v)"
      using out [of j] that(1) by (simp only: fj) simp
    show ?thesis
      unfolding oi oj by simp
  qed
  have lead: "?df' col ! i = NA" if "\<forall>k\<le>i. coerce parse (df col ! k) = NA"
  proof -
    have fi: "?f col ! i = NA"
      using filled_numeric_nth(4) [of col i df parse] assms that by simp
    show ?thesis
      using out [of i] by (simp only: fi) simp
  qed
  have "length (?df' col) = length (df col)"
    using len by auto
  with gap lead process_data_eq [of parse df] show ?thesis
    by blast
qed

text \<open>
  On the example frame: the throughput column \<open>[NaN, 5000, 'x', NaN]\<close> ends with 5 in
  row 3 and NaN in row 0, and the RTT column \<open>['7', NaN, 9, NaN]\<close> has 7 in row 1.
\<close>

theorem forward_fill_numeric_columns_witness:
  "\<exists>df'. process_data example_parse example_df = Inr df'
      \<and> df' Normalized_tput ! 3 = Num 5 \<and> df' Normalized_tput ! 0 = NA
      \<and> df' Rtt ! 1 = Num 7"
proof -
  have c: "Normalized_tput \<in> set numeric_columns" "Rtt \<in> set numeric_columns"
    by (simp_all add: numeric_columns_def)
  have l: "3 < length (example_df Normalized_tput)" "0 < length (example_df Normalized_tput)"
    "1 < length (example_df Rtt)"
    by (simp_all add: example_df_def)
  from forward_fill_numeric_columns [of Normalized_tput 3 example_df example_parse] c(1) l(1)
  obtain df' where p: "process_data example_parse example_df = Inr df'"
    and g: "\<forall>j v. j < 3 \<and> coerce example_parse (example_df Normalized_tput ! j) = Num v
          \<and> (\<forall>k. j < k \<and> k \<le> 3 \<longrightarrow> coerce example_parse (example_df Normalized_tput ! k) = NA)
          \<longrightarrow> df' Normalized_tput ! 3 = df' Normalized_tput ! j
              \<and> df' Normalized_tput ! j = Num (if Normalized_tput = Normalized_tput then v / 1000 else v)"
    by blast
  have k: "coerce example_parse (example_df Normalized_tput ! k) = NA" if "1 < k \<and> k \<le> 3" for k
  proof -
    from that have "k = 2 \<or> k = 3" by arith
    then show ?thesis by (auto simp: example_df_def example_parse_def)
  qed
  have a: "df' Normalized_tput ! 3 = Num 5"
    using g [rule_format, of 1 5000] k by (simp add: example_df_def)
  from forward_fill_numeric_columns [of Normalized_tput 0 example_df example_parse] c(1) l(2) p
  have "(\<forall>k\<le>0. coerce example_parse (example_df Normalized_tput ! k) = NA)
      \<longrightarrow> df' Normalized_tput ! 0 = NA"
    by auto
  then have b: "df' Normalized_tput ! 0 = NA"
    by (simp add: example_df_def)
  from forward_fill_numeric_columns [of Rtt 1 example_df example_parse] c(2) l(3) p
  have "\<forall>j v. j < 1 \<and> coerce example_parse (example_df Rtt ! j) = Num v
          \<and> (\<forall>k. j < k \<and> k \<le> 1 \<longrightarrow> coerce example_parse (example_df Rtt ! k) = NA)
          \<longrightarrow> df' Rtt ! 1 = df' Rtt ! j \<and> df' Rtt ! j = Num (if Rtt = Normalized_tput then v / 1000 else v)"
    by auto
  note r = this [rule_format, of 0 7]
  have k': "coerce example_parse (example_df Rtt ! k) = NA" if "0 < k \<and> k \<le> 1" for k
  proof -
    from that have "k = 1" by arith
    then show ?thesis by (simp add: example_df_def)
  qed
  have "coerce example_parse (example_df Rtt ! 0) = Num 7"
    by (simp add: example_df_def example_parse_def)
  with r k' have d: "df' Rtt ! 1 = Num 7"
    by simp
  from p a b d show ?thesis by blast
qed

text \<open>
  Claim C4. A throughput cell that holds the number \<open>v\<close> once converted is \<open>v / 1000\<close>
  in the processed frame, and processing always returns a frame.
\<close>

theorem throughput_kbps_to_mbps:
  assumes "i < length (df Normalized_tput)"
    and "coerce parse (df Normalized_tput ! i) = Num v"
  shows "\<exists>df'. process_data parse df = Inr df' \<and> df' Normalized_tput ! i = Num (v / 1000)"
proof -
  have c: "Normalized_tput \<in> set numeric_columns"
    by (simp add: numeric_columns_def)
  have "filled parse df Normalized_tput ! i = Num v"
    using filled_numeric_nth(2) [of Normalized_tput i df parse] c assms by simp
  moreover have "i < length (filled parse df Normalized_tput)"
    using filled_numeric_nth(1) [of Normalized_tput i df parse] c assms(1) by simp
  ultimately show ?thesis
    using process_data_eq [of parse df] by simp
qed

theorem throughput_kbps_to_mbps_witness:
  "\<exists>df'. process_data example_parse example_df = Inr df' \<and> df' Normalized_tput ! 1 = Num 5"
proof -
  have "1 < length (example_df Normalized_tput)"
    by (simp add: example_df_def)
  moreover have "coerce example_parse (example_df Normalized_tput ! 1) = Num 5000"
    by (simp add: example_df_def)
  ultimately show ?thesis
    using throughput_kbps_to_mbps [of 1 example_df example_parse 5000] by simp
qed

lemma filled_sender: "filled parse df Sender = ffill_from NA (df Sender)"
  by (simp add: filled_def numeric_columns_def)

lemma process_data_sender:
  "\<exists>df'. process_data parse df = Inr df' \<and> df' Sender = ffill_from NA (df Sender)"
  using process_data_eq [of parse df] by (simp add: filled_sender)

text \<open>
  A frame whose sender column is missing in every row comes back from processing as it
  went in: no missing sender cell has a value above it to take.
\<close>

theorem sender_unchanged_counterexample:
  "NA \<in> set (quiet_df Sender) \<and> process_data example_parse quiet_df = Inr quiet_df"
proof -
  have "filled example_parse quiet_df col = quiet_df col" for col
    by (cases col) (simp_all add: filled_def quiet_df_def numeric_columns_def to_numeric_def)
  then have f: "filled example_parse quiet_df = quiet_df" by (rule ext)
  have "quiet_df(Normalized_tput := map (scale 1000) (quiet_df Normalized_tput)) = quiet_df"
    by (rule ext) (simp add: quiet_df_def)
  with process_data_eq [of example_parse quiet_df] f
  have "process_data example_parse quiet_df = Inr quiet_df" by simp
  then show ?thesis by (simp add: quiet_df_def)
qed

text \<open>
  Claim C10, amended. The forward fill covers the whole frame, the sender column too: a
  missing sender cell in row \<open>i\<close> whose nearest valid sender cell above is in row \<open>j\<close> holds
  the value of row \<open>j\<close> after processing, so the sender column of a frame with such a cell
  is changed by processing.
\<close>

theorem forward_fill_sender_column:
  assumes "i < length (df Sender)" and "df Sender ! i = NA"
    and "j < i" and "df Sender ! j \<noteq> NA"
    and "\<forall>k. j < k \<and> k \<le> i \<longrightarrow> df Sender ! k = NA"
  shows "\<exists>df'. process_data parse df = Inr df'
           \<and> df' Sender ! i = df Sender ! j
           \<and> df' Sender \<noteq> df Sender"
proof -
  from process_data_sender [of parse df]
  obtain df' where p: "process_data parse df = Inr df'"
    and s: "df' Sender = ffill_from NA (df Sender)"
    by blast
  have "ffill_from NA (df Sender) ! i = df Sender ! j"
    using assms(1,3,4,5) by (rule ffill_from_gap)
  with s have a: "df' Sender ! i = df Sender ! j" by simp
  with assms(2,4) have "df' Sender ! i \<noteq> df Sender ! i" by simp
  then have "df' Sender \<noteq> df Sender" by auto
  with p a show ?thesis by blast
qed

theorem forward_fill_sender_column_witness:
  "\<exists>df'. process_data example_parse example_df = Inr df'
      \<and> df' Sender ! 3 = Str ''h1'' \<and> df' Sender \<noteq> example_df Sender"
proof -
  have k: "example_df Sender ! k = NA" if "1 < k \<and> k \<le> 3" for k
  proof -
    from that have "k = 2 \<or> k = 3" by arith
    then show ?thesis by (auto simp: example_df_def)
  qed
  have "3 < length (example_df Sender)" "example_df Sender ! 3 = NA"
    "(1::nat) < 3" "example_df Sender ! 1 \<noteq> NA"
    by (simp_all add: example_df_def)
  with k forward_fill_sender_column [of 3 example_df 1 example_parse]
  show ?thesis by (simp add: example_df_def)
qed

section \<open>Properties of main\<close>

text \<open>
  Claim C7. When the path argument names no existing file, the run prints one line,
  \<open>Error: File '<path>' does not exist.\<close>, with the path as given, and ends with
  \<open>SystemExit(1)\<close>; \<open>pd.read_csv\<close> is never called.
\<close>

theorem missing_file_exits:
  assumes "\<not> isfile (csv_path a)"
  shows "main isfile read_csv parse a =
           ([Print (''Error: File '' @ [quote] @ csv_path a @ [quote] @ '' does not exist.'')],
            Some (SystemExit 1))
         \<and> (\<forall>p. Read_csv p \<notin> set (fst (main isfile read_csv parse a)))"
  using assms by (simp add: main_def parse_arguments_def)

theorem missing_file_exits_witness:
  "main (\<lambda>p. False) (\<lambda>p. Inl ''unused'') example_parse \<lparr>csv_path = ''a.csv'', title = [''T'']\<rparr>
     = ([Print ''Error: File 'a.csv' does not exist.''], Some (SystemExit 1))"
  using missing_file_exits [of "\<lambda>p. False" "\<lparr>csv_path = ''a.csv'', title = [''T'']\<rparr>"
      "\<lambda>p. Inl ''unused''" example_parse]
  by simp

text \<open>
  Claim C8. When the file exists and \<open>pd.read_csv\<close> raises an exception with text \<open>e\<close>, the
  run prints \<open>Error reading CSV file: e\<close> after the one call of the reader and ends with
  \<open>SystemExit(1)\<close>: the exception does not escape.
\<close>

theorem parse_failure_exits:
  assumes "isfile (csv_path a)" and "read_csv (csv_path a) = Inl e"
  shows "main isfile read_csv parse a =
           ([Read_csv (csv_path a), Print (''Error reading CSV file: '' @ e)],
            Some (SystemExit 1))"
  using assms by (simp add: main_def parse_arguments_def load_data_def)

theorem parse_failure_exits_witness:
  "main (\<lambda>p. True) (\<lambda>p. Inl ''bad line'') example_parse \<lparr>csv_path = ''a.csv'', title = [''T'']\<rparr>
     = ([Read_csv ''a.csv'', Print ''Error reading CSV file: bad line''], Some (SystemExit 1))"
  using parse_failure_exits [of "\<lambda>p. True" "\<lparr>csv_path = ''a.csv'', title = [''T'']\<rparr>"
      "\<lambda>p. Inl ''bad line''" "''bad line''" example_parse]
  by simp

section \<open>Properties of compute_averages\<close>

lemma avg_loop_done:
  "length (time data) \<le> i \<Longrightarrow> avg_loop data chunk_size i avg_data = avg_data"
  by (subst avg_loop.simps) simp

lemma avg_loop_step:
  assumes "0 < chunk_size" and "i < length (time data)"
  shows "avg_loop data chunk_size i avg_data =
           avg_loop data chunk_size (i + chunk_size)
             (avg_data\<lparr>time := time avg_data @ [np_mean (take chunk_size (drop i (time data)))],
                        rtt := rtt avg_data
                                 @ [map_option (\<lambda>m. m - 45) (np_mean (take chunk_size (drop i (rtt data))))],
                        bps := bps avg_data @ [np_mean (take chunk_size (drop i (bps data)))]\<rparr>)"
  using assms by (subst avg_loop.simps) (simp add: Let_def)

lemma np_mean_chunk:
  assumes "0 < chunk_size" and "i < length xs"
  shows "np_mean (take chunk_size (drop i xs)) \<noteq> None"
  using assms by (simp add: np_mean_def)

lemma chunks_from_done: "0 < c \<Longrightarrow> n \<le> i \<Longrightarrow> chunks_from n c i = 0"
  by (simp add: chunks_from_def)

lemma chunks_from_step:
  assumes "0 < c" and "i < n"
  shows "chunks_from n c i = Suc (chunks_from n c (i + c))"
proof (cases "i + c \<le> n")
  case True
  define x where "x = n - (i + c) + (c - 1)"
  from True have "n - i + (c - 1) = x + c" unfolding x_def by arith
  then have "(n - i + (c - 1)) div c = (x + c) div c" by (rule arg_cong)
  also have "\<dots> = Suc (x div c)"
    using assms(1) by simp
  finally show ?thesis unfolding chunks_from_def x_def .
next
  case False
  with assms have a: "n - (i + c) + (c - 1) < c" and b: "n - i + (c - 1) < c + c"
    and d: "c \<le> n - i + (c - 1)"
    by arith+
  from a have z: "(n - (i + c) + (c - 1)) div c = 0" by simp
  define y where "y = n - i + (c - 1)"
  from b d obtain r where r: "y = r + c" "r < c"
    unfolding y_def by (metis add.commute le_Suc_ex nat_add_left_cancel_less)
  have "(r + c) div c = Suc (r div c)"
    using assms(1) by simp
  with r have "y div c = 1" by simp
  then have "(n - i + (c - 1)) div c = 1" unfolding y_def .
  with z show ?thesis unfolding chunks_from_def by (simp only: One_nat_def)
qed

lemma avg_loop_lengths:
  assumes "0 < chunk_size"
  shows "length (time (avg_loop data chunk_size i avg_data))
           = length (time avg_data) + chunks_from (length (time data)) chunk_size i
       \<and> length (rtt (avg_loop data chunk_size i avg_data))
           = length (rtt avg_data) + chunks_from (length (time data)) chunk_size i
       \<and> length (bps (avg_loop data chunk_size i avg_data))
           = length (bps avg_data) + chunks_from (length (time data)) chunk_size i"
  using assms
proof (induction data chunk_size i avg_data rule: avg_loop.induct)
  case (1 data chunk_size i avg_data)
  show ?case
  proof (cases "i < length (time data)")
    case False
    with "1.prems" show ?thesis by (simp add: avg_loop_done chunks_from_done)
  next
    case True
    have ne: "take chunk_size (drop i (time data)) \<noteq> []"
      using True "1.prems" by simp
    note ih = "1.IH" [OF _ refl refl refl "1.prems"]
    show ?thesis
      using True "1.prems" ne ih
      by (simp add: avg_loop_step chunks_from_step [of chunk_size i "length (time data)"])
  qed
qed

lemma avg_loop_no_nan:
  assumes "0 < chunk_size"
    and "length (rtt data) = length (time data)" and "length (bps data) = length (time data)"
    and "None \<notin> set (time avg_data)" and "None \<notin> set (rtt avg_data)" and "None \<notin> set (bps avg_data)"
  shows "None \<notin> set (time (avg_loop data chunk_size i avg_data))
       \<and> None \<notin> set (rtt (avg_loop data chunk_size i avg_data))
       \<and> None \<notin> set (bps (avg_loop data chunk_size i avg_data))"
  using assms
proof (induction data chunk_size i avg_data rule: avg_loop.induct)
  case (1 data chunk_size i avg_data)
  show ?case
  proof (cases "i < length (time data)")
    case False
    with "1.prems" show ?thesis by (simp add: avg_loop_done)
  next
    case True
    have ne: "take chunk_size (drop i (time data)) \<noteq> []"
      using True "1.prems" by simp
    obtain a b c where m: "np_mean (take chunk_size (drop i (time data))) = Some a"
      "np_mean (take chunk_size (drop i (rtt data))) = Some b"
      "np_mean (take chunk_size (drop i (bps data))) = Some c"
      using True "1.prems"(1-3) by (simp add: np_mean_def)
    note ih = "1.IH" [OF _ refl refl refl "1.prems"(1-3)]
    show ?thesis
      using True "1.prems" ne m ih by (simp add: avg_loop_step)
  qed
qed

lemma chunks_from_ceiling:
  assumes "0 < c"
  shows "int (chunks_from n c 0) = \<lceil>real n / real c\<rceil>"
proof -
  define q where "q = (n + (c - 1)) div c"
  have 1: "q * c \<le> n + (c - 1)"
    by (simp add: q_def)
  have 2: "n + (c - 1) < q * c + c"
    using assms dividend_less_div_times [of c "n + (c - 1)"] by (simp add: q_def)
  from 1 assms have "q * c + 1 \<le> n + c" by arith
  then have "real (q * c + 1) \<le> real (n + c)" by (rule of_nat_mono)
  then have lo: "real q * real c - real c < real n" by simp
  from 2 assms have "n \<le> q * c" by arith
  then have "real n \<le> real (q * c)" by (rule of_nat_mono)
  then have hi: "real n \<le> real q * real c" by simp
  have c: "0 < real c" using assms by simp
  have "real n / real c \<le> real q"
    using hi c by (simp add: pos_divide_le_eq)
  moreover have "real q - 1 < real n / real c"
  proof -
    have "(real q * real c - real c) / real c < real n / real c"
      using lo c by (rule divide_strict_right_mono)
    moreover have "(real q * real c - real c) / real c = real q - 1"
      using c by (simp add: field_simps)
    ultimately show ?thesis by simp
  qed
  ultimately have "\<lceil>real n / real c\<rceil> = int q"
    by (intro ceiling_unique) simp_all
  then show ?thesis by (simp add: chunks_from_def q_def)
qed

lemma np_mean_take_drop:
  assumes "i + k \<le> length xs" and "0 < k"
  shows "np_mean (take k (drop i xs)) = Some (sum_list (take k (drop i xs)) / real k)"
proof -
  have "length (take k (drop i xs)) = k" using assms by simp
  moreover from this assms(2) have "take k (drop i xs) \<noteq> []" by auto
  ultimately show ?thesis by (simp add: np_mean_def)
qed

text \<open>
  Claim C2. On a stream of 25 samples \<open>compute_averages\<close> with chunk size 10 returns
  three buckets: the samples 0 to 9, 10 to 19 and 20 to 24, which are contiguous, in order
  and together the whole stream. The time and the rate of a bucket are the sum of its
  members over their number (10, 10 and 5); its RTT is that mean less 45.
\<close>

theorem compute_averages_25_by_10:
  assumes "length (time data) = 25" and "length (rtt data) = 25" and "length (bps data) = 25"
  shows "compute_averages data 10 =
           Inr \<lparr>time = [Some (sum_list (take 10 (time data)) / 10),
                        Some (sum_list (take 10 (drop 10 (time data))) / 10),
                        Some (sum_list (drop 20 (time data)) / 5)],
                rtt = [Some (sum_list (take 10 (rtt data)) / 10 - 45),
                       Some (sum_list (take 10 (drop 10 (rtt data))) / 10 - 45),
                       Some (sum_list (drop 20 (rtt data)) / 5 - 45)],
                bps = [Some (sum_list (take 10 (bps data)) / 10),
                       Some (sum_list (take 10 (drop 10 (bps data))) / 10),
                       Some (sum_list (drop 20 (bps data)) / 5)]\<rparr>
         \<and> time data = take 10 (time data) @ take 10 (drop 10 (time data)) @ drop 20 (time data)
         \<and> length (take 10 (time data)) = 10
         \<and> length (take 10 (drop 10 (time data))) = 10
         \<and> length (drop 20 (time data)) = 5"
proof -
  have m0: "np_mean (take 10 (drop 0 xs)) = Some (sum_list (take 10 xs) / 10)"
    if "length xs = 25" for xs
    using np_mean_take_drop [of 0 10 xs] that by simp
  have m1: "np_mean (take 10 (drop 10 xs)) = Some (sum_list (take 10 (drop 10 xs)) / 10)"
    if "length xs = 25" for xs
    using np_mean_take_drop [of 10 10 xs] that by simp
  have m2: "np_mean (drop 20 xs) = Some (sum_list (drop 20 xs) / 5)"
    if "length xs = 25" for xs
    using np_mean_take_drop [of 20 5 xs] that by simp
  let ?e = "\<lparr>time = [], rtt = [], bps = []\<rparr> :: real option series"
  have "avg_loop data 10 0 ?e =
      avg_loop data 10 30
        \<lparr>time = [Some (sum_list (take 10 (time data)) / 10),
                 Some (sum_list (take 10 (drop 10 (time data))) / 10),
                 Some (sum_list (drop 20 (time data)) / 5)],
         rtt = [Some (sum_list (take 10 (rtt data)) / 10 - 45),
                Some (sum_list (take 10 (drop 10 (rtt data))) / 10 - 45),
                Some (sum_list (drop 20 (rtt data)) / 5 - 45)],
         bps = [Some (sum_list (take 10 (bps data)) / 10),
                Some (sum_list (take 10 (drop 10 (bps data))) / 10),
                Some (sum_list (drop 20 (bps data)) / 5)]\<rparr>"
    using assms
    by (simp add: avg_loop_step [of 10 0] avg_loop_step [of 10 10] avg_loop_step [of 10 20]
        m0 [simplified] m1 m2)
  then have "compute_averages data 10 = Inr \<lparr>time = [Some (sum_list (take 10 (time data)) / 10),
                 Some (sum_list (take 10 (drop 10 (time data))) / 10),
                 Some (sum_list (drop 20 (time data)) / 5)],
         rtt = [Some (sum_list (take 10 (rtt data)) / 10 - 45),
                Some (sum_list (take 10 (drop 10 (rtt data))) / 10 - 45),
                Some (sum_list (drop 20 (rtt data)) / 5 - 45)],
         bps = [Some (sum_list (take 10 (bps data)) / 10),
                Some (sum_list (take 10 (drop 10 (bps data))) / 10),
                Some (sum_list (drop 20 (bps data)) / 5)]\<rparr>"
    using assms(1) by (simp add: compute_averages_def avg_loop_done)
  moreover have "take 10 (time data) @ take 10 (drop 10 (time data)) @ drop 20 (time data) = time data"
  proof -
    have "take 10 (drop 10 (time data)) @ drop 20 (time data) = drop 10 (time data)"
      using append_take_drop_id [of 10 "drop 10 (time data)"] by simp
    then show ?thesis by simp
  qed
  ultimately show ?thesis using assms(1) by simp
qed

theorem compute_averages_25_by_10_witness:
  "compute_averages example_series 10 =
     Inr \<lparr>time = [Some 4.5, Some 14.5, Some 22],
          rtt = [Some 50, Some 50, Some 50],
          bps = [Some 2, Some 2, Some 2]\<rparr>"
proof -
  have "length (time example_series) = 25" "length (rtt example_series) = 25"
    "length (bps example_series) = 25"
    by (simp_all add: example_series_def)
  from compute_averages_25_by_10 [OF this] show ?thesis
    by (simp add: example_series_def sum_list_replicate)
qed

text \<open>
  Claim C9. For three lists of the same length \<open>n\<close> and a chunk size of at least 1,
  \<open>compute_averages\<close> returns, and each of its three lists has \<open>\<lceil>n / chunk_size\<rceil>\<close> entries,
  none of them NaN (no mean is taken of an empty chunk); for \<open>n = 0\<close> the lists are empty.
\<close>

theorem compute_averages_bucket_count:
  assumes "1 \<le> chunk_size"
    and "length (time data) = n" and "length (rtt data) = n" and "length (bps data) = n"
  shows "\<exists>avg. compute_averages data chunk_size = Inr avg
           \<and> int (length (time avg)) = \<lceil>real n / real_of_int chunk_size\<rceil>
           \<and> int (length (rtt avg)) = \<lceil>real n / real_of_int chunk_size\<rceil>
           \<and> int (length (bps avg)) = \<lceil>real n / real_of_int chunk_size\<rceil>
           \<and> None \<notin> set (time avg) \<and> None \<notin> set (rtt avg) \<and> None \<notin> set (bps avg)
           \<and> (n = 0 \<longrightarrow> avg = \<lparr>time = [], rtt = [], bps = []\<rparr>)"
proof -
  let ?e = "\<lparr>time = [], rtt = [], bps = []\<rparr> :: real option series"
  let ?c = "nat chunk_size"
  let ?avg = "avg_loop data ?c 0 ?e"
  have c: "0 < ?c" using assms(1) by simp
  have r: "real ?c = real_of_int chunk_size" using assms(1) by simp
  have ca: "compute_averages data chunk_size = Inr ?avg"
    using assms(1) by (simp add: compute_averages_def)
  have k: "int (chunks_from n ?c 0) = \<lceil>real n / real_of_int chunk_size\<rceil>"
    using chunks_from_ceiling [OF c, of n] by (simp only: r)
  have len: "int (length (time ?avg)) = \<lceil>real n / real_of_int chunk_size\<rceil>"
    "int (length (rtt ?avg)) = \<lceil>real n / real_of_int chunk_size\<rceil>"
    "int (length (bps ?avg)) = \<lceil>real n / real_of_int chunk_size\<rceil>"
    using avg_loop_lengths [OF c, of data 0 ?e] assms(2) k by simp_all
  have nan: "None \<notin> set (time ?avg) \<and> None \<notin> set (rtt ?avg) \<and> None \<notin> set (bps ?avg)"
    using assms(2-4) by (intro avg_loop_no_nan c) simp_all
  have emp: "n = 0 \<longrightarrow> ?avg = ?e"
    using assms(2) by (simp add: avg_loop_done)
  from ca len nan emp show ?thesis by blast
qed

theorem compute_averages_bucket_count_witness:
  "\<exists>avg. compute_averages example_series 10 = Inr avg
      \<and> length (time avg) = 3 \<and> length (rtt avg) = 3 \<and> length (bps avg) = 3
      \<and> None \<notin> set (rtt avg)"
proof -
  have "(1::int) \<le> 10" "length (time example_series) = 25" "length (rtt example_series) = 25"
    "length (bps example_series) = 25"
    by (simp_all add: example_series_def)
  from compute_averages_bucket_count [OF this]
  obtain avg where a: "compute_averages example_series 10 = Inr avg"
    and l: "int (length (time avg)) = \<lceil>real 25 / real_of_int 10\<rceil>"
      "int (length (rtt avg)) = \<lceil>real 25 / real_of_int 10\<rceil>"
      "int (length (bps avg)) = \<lceil>real 25 / real_of_int 10\<rceil>"
    and n: "None \<notin> set (rtt avg)"
    by blast
  have "\<lceil>real 25 / real_of_int 10\<rceil> = 3" by simp
  with l have "length (time avg) = 3" "length (rtt avg) = 3" "length (bps avg) = 3"
    by simp_all
  with a n show ?thesis by blast
qed

section \<open>Properties of the collection loop\<close>

lemma collect_stream_complete:
  assumes "complete_sample (iv, s)"
  shows "\<exists>sd'. collect_stream iv sd s = Inr sd'
           \<and> (\<forall>k. map_of sd' k = add_sample k (map_of sd k) (iv, s))
           \<and> (distinct (map fst sd) \<longrightarrow> distinct (map fst sd'))"
proof -
  from assms obtain i b so t where f: "socket s = Some i" "bits_per_second s = Some b"
    "sum_key iv = Some so" "start so = Some t"
    by (auto simp: complete_sample_def split: option.splits)
  let ?e = "\<lparr>time = [], rtt = [], bps = []\<rparr> :: real series"
  let ?sd1 = "if map_of sd i = None then AList.update i ?e sd else sd"
  let ?r = "(case rtt_key s of None \<Rightarrow> 0 | Some x \<Rightarrow> x)"
  let ?sd2 = "AList.map_entry i (\<lambda>d. d\<lparr>time := time d @ [t]\<rparr>) ?sd1"
  let ?sd3 = "AList.map_entry i (\<lambda>d. d\<lparr>rtt := rtt d @ [?r / 10 ^ 3]\<rparr>) ?sd2"
  let ?sd4 = "AList.map_entry i (\<lambda>d. d\<lparr>bps := bps d @ [b / 10 ^ 6]\<rparr>) ?sd3"
  have r: "collect_stream iv sd s = Inr ?sd4"
    using f by (simp add: collect_stream_def Let_def)
  have m1: "map_of ?sd1 = (map_of sd)(i \<mapsto> (case map_of sd i of None \<Rightarrow> ?e | Some y \<Rightarrow> y))"
    by (auto simp: update_conv' split: option.splits)
  have m4: "map_of ?sd4 k = add_sample k (map_of sd k) (iv, s)" for k
    using f
    by (simp only: map_of_map_entry m1)
      (simp add: add_sample_def sample_time_def sample_rtt_def sample_bps_def split: option.splits)
  have d: "distinct (map fst ?sd4)" if "distinct (map fst sd)"
    using that by (intro distinct_map_entry) (simp add: distinct_update)
  from r m4 d show ?thesis by blast
qed

lemma collect_streams_complete:
  assumes "\<forall>s\<in>set ss. complete_sample (iv, s)"
  shows "\<exists>sd'. collect_streams iv ss sd = Inr sd'
           \<and> (\<forall>k. map_of sd' k = foldl (add_sample k) (map_of sd k) (map (Pair iv) ss))
           \<and> (distinct (map fst sd) \<longrightarrow> distinct (map fst sd'))"
  using assms
proof (induction ss arbitrary: sd)
  case Nil
  then show ?case by simp
next
  case (Cons s ss)
  from Cons.prems have "complete_sample (iv, s)" by simp
  from collect_stream_complete [OF this, of sd]
  obtain sd1 where 1: "collect_stream iv sd s = Inr sd1"
    "\<forall>k. map_of sd1 k = add_sample k (map_of sd k) (iv, s)"
    "distinct (map fst sd) \<longrightarrow> distinct (map fst sd1)"
    by blast
  from Cons.prems have "\<forall>s\<in>set ss. complete_sample (iv, s)" by simp
  from Cons.IH [OF this, of sd1]
  obtain sd2 where 2: "collect_streams iv ss sd1 = Inr sd2"
    "\<forall>k. map_of sd2 k = foldl (add_sample k) (map_of sd1 k) (map (Pair iv) ss)"
    "distinct (map fst sd1) \<longrightarrow> distinct (map fst sd2)"
    by blast
  from 1 2 show ?case by simp
qed

lemma collect_intervals_complete:
  assumes "well_formed ivs"
  shows "\<exists>sd'. collect_intervals ivs sd = Inr sd'
           \<and> (\<forall>k. map_of sd' k = foldl (add_sample k) (map_of sd k) (samples_of ivs))
           \<and> (distinct (map fst sd) \<longrightarrow> distinct (map fst sd'))"
  using assms
proof (induction ivs arbitrary: sd)
  case Nil
  then show ?case by (simp add: samples_of_def)
next
  case (Cons iv ivs)
  from Cons.prems obtain ss where ss: "streams iv = Some ss"
    by (auto simp: well_formed_def)
  from Cons.prems ss have c: "\<forall>s\<in>set ss. complete_sample (iv, s)"
    by (auto simp: well_formed_def samples_of_def list_all_iff)
  from Cons.prems have w: "well_formed ivs"
    by (simp add: well_formed_def samples_of_def)
  from collect_streams_complete [OF c, of sd]
  obtain sd1 where 1: "collect_streams iv ss sd = Inr sd1"
    "\<forall>k. map_of sd1 k = foldl (add_sample k) (map_of sd k) (map (Pair iv) ss)"
    "distinct (map fst sd) \<longrightarrow> distinct (map fst sd1)"
    by blast
  from Cons.IH [OF w, of sd1]
  obtain sd2 where 2: "collect_intervals ivs sd1 = Inr sd2"
    "\<forall>k. map_of sd2 k = foldl (add_sample k) (map_of sd1 k) (samples_of ivs)"
    "distinct (map fst sd1) \<longrightarrow> distinct (map fst sd2)"
    by blast
  have "samples_of (iv # ivs) = map (Pair iv) ss @ samples_of ivs"
    using ss by (simp add: samples_of_def)
  with 1 2 ss show ?case by simp
qed

lemma foldl_add_sample_Some:
  "foldl (add_sample k) (Some x) ps =
     Some \<lparr>time = time x @ map sample_time (filter (\<lambda>p. socket (snd p) = Some k) ps),
           rtt = rtt x @ map sample_rtt (filter (\<lambda>p. socket (snd p) = Some k) ps),
           bps = bps x @ map sample_bps (filter (\<lambda>p. socket (snd p) = Some k) ps)\<rparr>"
proof (induction ps arbitrary: x)
  case Nil
  then show ?case by simp
next
  case (Cons p ps)
  show ?case
  proof (cases "socket (snd p) = Some k")
    case True
    then have "add_sample k (Some x) p =
        Some \<lparr>time = time x @ [sample_time p], rtt = rtt x @ [sample_rtt p],
              bps = bps x @ [sample_bps p]\<rparr>"
      by (simp add: add_sample_def)
    with True show ?thesis by (simp add: Cons.IH)
  next
    case False
    then have "add_sample k (Some x) p = Some x" by (simp add: add_sample_def)
    with False show ?thesis by (simp add: Cons.IH)
  qed
qed

lemma foldl_add_sample_None:
  "foldl (add_sample k) None ps =
     (if filter (\<lambda>p. socket (snd p) = Some k) ps = [] then None
      else Some \<lparr>time = map sample_time (filter (\<lambda>p. socket (snd p) = Some k) ps),
                 rtt = map sample_rtt (filter (\<lambda>p. socket (snd p) = Some k) ps),
                 bps = map sample_bps (filter (\<lambda>p. socket (snd p) = Some k) ps)\<rparr>)"
proof (induction ps)
  case Nil
  then show ?case by simp
next
  case (Cons p ps)
  show ?case
  proof (cases "socket (snd p) = Some k")
    case True
    then have "add_sample k None p =
        Some \<lparr>time = [sample_time p], rtt = [sample_rtt p], bps = [sample_bps p]\<rparr>"
      by (simp add: add_sample_def)
    with True show ?thesis by (simp add: foldl_add_sample_Some)
  next
    case False
    then have "add_sample k None p = None" by (simp add: add_sample_def)
    with False show ?thesis by (simp add: Cons.IH)
  qed
qed

lemma collect_series:
  assumes "well_formed ivs" and "intervals iperf_data = Some ivs"
  shows "\<exists>sd. collect iperf_data = Inr sd \<and> distinct (map fst sd)
           \<and> (\<forall>k. map_of sd k =
                 (if samples_for k ivs = [] then None
                  else Some \<lparr>time = map sample_time (samples_for k ivs),
                             rtt = map sample_rtt (samples_for k ivs),
                             bps = map sample_bps (samples_for k ivs)\<rparr>))"
proof -
  from collect_intervals_complete [OF assms(1), of "[]"]
  obtain sd where 1: "collect_intervals ivs [] = Inr sd"
    "\<forall>k. map_of sd k = foldl (add_sample k) None (samples_of ivs)"
    "distinct (map fst sd)"
    by auto
  from 1(2) have "map_of sd k =
      (if samples_for k ivs = [] then None
       else Some \<lparr>time = map sample_time (samples_for k ivs),
                  rtt = map sample_rtt (samples_for k ivs),
                  bps = map sample_bps (samples_for k ivs)\<rparr>)" for k
    by (simp add: foldl_add_sample_None samples_for_def)
  with 1(1,3) assms(2) show ?thesis
    by (simp add: collect_def)
qed

text \<open>
  Claim C3. For a report with an \<open>intervals\<close> array in which every key the loop reads is
  present, the loop returns a dict with each socket id once. A socket id no sample carries
  has no series. The series of socket id \<open>k\<close> has one entry per sample that carries \<open>k\<close>, in
  the order of the intervals (and of the streams inside one), and the time of each entry is
  \<open>sum.start\<close> of the interval the sample stands in.
\<close>

theorem samples_grouped_by_socket:
  assumes "intervals iperf_data = Some ivs" and "well_formed ivs"
  shows "\<exists>stream_data. collect iperf_data = Inr stream_data
           \<and> distinct (map fst stream_data)
           \<and> (\<forall>k. (samples_for k ivs = [] \<longrightarrow> map_of stream_data k = None)
                  \<and> (samples_for k ivs \<noteq> [] \<longrightarrow>
                       (\<exists>d. map_of stream_data k = Some d
                          \<and> length (rtt d) = length (samples_for k ivs)
                          \<and> length (bps d) = length (samples_for k ivs)
                          \<and> list_all2 (\<lambda>t p. \<exists>so. sum_key (fst p) = Some so \<and> start so = Some t)
                                (time d) (samples_for k ivs))))"
proof -
  from collect_series [OF assms(2,1)]
  obtain sd where c: "collect iperf_data = Inr sd" and d: "distinct (map fst sd)"
    and m: "\<And>k. map_of sd k =
                 (if samples_for k ivs = [] then None
                  else Some \<lparr>time = map sample_time (samples_for k ivs),
                             rtt = map sample_rtt (samples_for k ivs),
                             bps = map sample_bps (samples_for k ivs)\<rparr>)"
    by blast
  have t: "list_all2 (\<lambda>t p. \<exists>so. sum_key (fst p) = Some so \<and> start so = Some t)
      (map sample_time (samples_for k ivs)) (samples_for k ivs)" for k
  proof -
    have "\<exists>so. sum_key (fst p) = Some so \<and> start so = Some (sample_time p)"
      if "p \<in> set (samples_for k ivs)" for p
    proof -
      from that have "p \<in> set (samples_of ivs)" by (simp add: samples_for_def)
      with assms(2) have "complete_sample p" by (simp add: well_formed_def list_all_iff)
      then show ?thesis
        by (cases p) (auto simp: complete_sample_def sample_time_def split: option.splits)
    qed
    then show ?thesis by (simp add: list_all2_map1 list_all2_same)
  qed
  have "(samples_for k ivs = [] \<longrightarrow> map_of sd k = None)
      \<and> (samples_for k ivs \<noteq> [] \<longrightarrow>
           (\<exists>d. map_of sd k = Some d
              \<and> length (rtt d) = length (samples_for k ivs)
              \<and> length (bps d) = length (samples_for k ivs)
              \<and> list_all2 (\<lambda>t p. \<exists>so. sum_key (fst p) = Some so \<and> start so = Some t)
                    (time d) (samples_for k ivs)))" for k
    using t [of k] by (simp add: m)
  with c d show ?thesis by blast
qed

theorem samples_grouped_by_socket_witness:
  "\<exists>stream_data d5 d7. collect example_report = Inr stream_data
      \<and> map_of stream_data 5 = Some d5 \<and> time d5 = [0, 1]
      \<and> map_of stream_data 7 = Some d7 \<and> time d7 = [0, 1]
      \<and> map_of stream_data 6 = None"
proof -
  let ?ivs = "the (intervals example_report)"
  have i: "intervals example_report = Some ?ivs" by (simp add: example_report_def)
  have w: "well_formed ?ivs"
    by (simp add: example_report_def well_formed_def samples_of_def complete_sample_def)
  from samples_grouped_by_socket [OF i w]
  obtain sd where c: "collect example_report = Inr sd"
    and m: "\<And>k. (samples_for k ?ivs = [] \<longrightarrow> map_of sd k = None)
                  \<and> (samples_for k ?ivs \<noteq> [] \<longrightarrow>
                       (\<exists>d. map_of sd k = Some d
                          \<and> length (rtt d) = length (samples_for k ?ivs)
                          \<and> length (bps d) = length (samples_for k ?ivs)
                          \<and> list_all2 (\<lambda>t p. \<exists>so. sum_key (fst p) = Some so \<and> start so = Some t)
                                (time d) (samples_for k ?ivs)))"
    by blast
  have s5: "samples_for 5 ?ivs = [(?ivs ! 0, the (streams (?ivs ! 0)) ! 0), (?ivs ! 1, the (streams (?ivs ! 1)) ! 1)]"
    by (simp add: example_report_def samples_for_def samples_of_def)
  have s7: "samples_for 7 ?ivs = [(?ivs ! 0, the (streams (?ivs ! 0)) ! 1), (?ivs ! 1, the (streams (?ivs ! 1)) ! 0)]"
    by (simp add: example_report_def samples_for_def samples_of_def)
  have s6: "samples_for 6 ?ivs = []"
    by (simp add: example_report_def samples_for_def samples_of_def)
  from m [of 5] s5 obtain d5 where d5: "map_of sd 5 = Some d5"
    and t5: "list_all2 (\<lambda>t p. \<exists>so. sum_key (fst p) = Some so \<and> start so = Some t)
        (time d5) [(?ivs ! 0, the (streams (?ivs ! 0)) ! 0), (?ivs ! 1, the (streams (?ivs ! 1)) ! 1)]"
    by auto
  from m [of 7] s7 obtain d7 where d7: "map_of sd 7 = Some d7"
    and t7: "list_all2 (\<lambda>t p. \<exists>so. sum_key (fst p) = Some so \<and> start so = Some t)
        (time d7) [(?ivs ! 0, the (streams (?ivs ! 0)) ! 1), (?ivs ! 1, the (streams (?ivs ! 1)) ! 0)]"
    by auto
  from t5 have "time d5 = [0, 1]"
    by (auto simp: list_all2_Cons2 example_report_def)
  moreover from t7 have "time d7 = [0, 1]"
    by (auto simp: list_all2_Cons2 example_report_def)
  moreover from m [of 6] s6 have "map_of sd 6 = None" by simp
  ultimately show ?thesis using c d5 d7 by blast
qed

text \<open>
  Claim C5. In the series of socket id \<open>k\<close>, the RTT of each entry is the \<open>rtt\<close> of its sample
  over 1000, with 0 taken for a sample that has no \<open>rtt\<close>, and the rate is its
  \<open>bits_per_second\<close> over 1000000.
\<close>

theorem samples_converted_at_collection:
  assumes "intervals iperf_data = Some ivs" and "well_formed ivs"
    and "samples_for k ivs \<noteq> []"
  shows "\<exists>stream_data d. collect iperf_data = Inr stream_data \<and> map_of stream_data k = Some d
           \<and> list_all2 (\<lambda>r p. r = (case rtt_key (snd p) of None \<Rightarrow> 0 | Some x \<Rightarrow> x) / 1000)
                 (rtt d) (samples_for k ivs)
           \<and> list_all2 (\<lambda>b p. \<exists>x. bits_per_second (snd p) = Some x \<and> b = x / 1000000)
                 (bps d) (samples_for k ivs)"
proof -
  from collect_series [OF assms(2,1)]
  obtain sd where c: "collect iperf_data = Inr sd"
    and m: "\<And>k. map_of sd k =
                 (if samples_for k ivs = [] then None
                  else Some \<lparr>time = map sample_time (samples_for k ivs),
                             rtt = map sample_rtt (samples_for k ivs),
                             bps = map sample_bps (samples_for k ivs)\<rparr>)"
    by blast
  have r: "list_all2 (\<lambda>r p. r = (case rtt_key (snd p) of None \<Rightarrow> 0 | Some x \<Rightarrow> x) / 1000)
      (map sample_rtt (samples_for k ivs)) (samples_for k ivs)"
    by (simp add: list_all2_map1 list_all2_same sample_rtt_def)
  have b: "list_all2 (\<lambda>b p. \<exists>x. bits_per_second (snd p) = Some x \<and> b = x / 1000000)
      (map sample_bps (samples_for k ivs)) (samples_for k ivs)"
  proof -
    have "\<exists>x. bits_per_second (snd p) = Some x \<and> sample_bps p = x / 1000000"
      if "p \<in> set (samples_for k ivs)" for p
    proof -
      from that have "p \<in> set (samples_of ivs)" by (simp add: samples_for_def)
      with assms(2) have "complete_sample p" by (simp add: well_formed_def list_all_iff)
      then show ?thesis
        by (cases p) (auto simp: complete_sample_def sample_bps_def)
    qed
    then show ?thesis by (simp add: list_all2_map1 list_all2_same)
  qed
  from c m [of k] assms(3) r b show ?thesis by simp
qed

theorem samples_converted_at_collection_witness:
  "\<exists>stream_data d. collect example_report = Inr stream_data \<and> map_of stream_data 7 = Some d
      \<and> rtt d = [0, 48] \<and> bps d = [1, 2]"
proof -
  let ?ivs = "the (intervals example_report)"
  have i: "intervals example_report = Some ?ivs" by (simp add: example_report_def)
  have w: "well_formed ?ivs"
    by (simp add: example_report_def well_formed_def samples_of_def complete_sample_def)
  have s7: "samples_for 7 ?ivs = [(?ivs ! 0, the (streams (?ivs ! 0)) ! 1), (?ivs ! 1, the (streams (?ivs ! 1)) ! 0)]"
    by (simp add: example_report_def samples_for_def samples_of_def)
  then have ne: "samples_for 7 ?ivs \<noteq> []" by simp
  from samples_converted_at_collection [OF i w ne]
  obtain sd d where c: "collect example_report = Inr sd" and d: "map_of sd 7 = Some d"
    and r: "list_all2 (\<lambda>r p. r = (case rtt_key (snd p) of None \<Rightarrow> 0 | Some x \<Rightarrow> x) / 1000)
                 (rtt d) (samples_for 7 ?ivs)"
    and b: "list_all2 (\<lambda>b p. \<exists>x. bits_per_second (snd p) = Some x \<and> b = x / 1000000)
                 (bps d) (samples_for 7 ?ivs)"
    by blast
  from r have "rtt d = [0, 48]"
    unfolding s7 by (auto simp: list_all2_Cons2 example_report_def)
  moreover from b have "bps d = [1, 2]"
    unfolding s7 by (auto simp: list_all2_Cons2 example_report_def)
  ultimately show ?thesis using c d by blast
qed

end
